theory Spec2Isabelle
  imports Complex_Main "HOL-Library.Char_ord" "HOL-Library.Sublist"
begin

section \<open>Text and character classes\<close>

text \<open>
  The program is \<^verbatim>\<open>webhook_app_final.py\<close>. A Python \<^verbatim>\<open>str\<close> is modelled as a
  \<^typ>\<open>string\<close>, one \<^typ>\<open>char\<close> per code point; the model therefore covers texts whose code
  points are below 256. On that range \<^verbatim>\<open>\d\<close> is the ten ASCII digits and \<^verbatim>\<open>\s\<close>
  (and the whitespace of \<^verbatim>\<open>str.strip\<close>) is TAB, LF, VT, FF, CR, the separators
  0x1C..0x1F, SPACE, NEL (0x85) and NBSP (0xA0).
\<close>

type_synonym char_class = "(char \<times> char) list"

text \<open>A bracket expression is a list of inclusive ranges; a single character is a range of one.\<close>

definition in_class :: "char_class \<Rightarrow> char \<Rightarrow> bool" where
  "in_class rs c = list_ex (\<lambda>r. fst r \<le> c \<and> c \<le> snd r) rs"

definition one :: "char \<Rightarrow> char \<times> char" where
  "one c = (c, c)"

definition digit_class :: char_class where
  "digit_class = [(CHR ''0'', CHR ''9'')]"

definition space_class :: char_class where
  "space_class = [(CHR 0x09, CHR 0x0D), (CHR 0x1C, CHR 0x20), one (CHR 0x85), one (CHR 0xA0)]"

definition is_digit :: "char \<Rightarrow> bool" where
  "is_digit = in_class digit_class"

definition is_space :: "char \<Rightarrow> bool" where
  "is_space = in_class space_class"

section \<open>A backtracking matcher for the constructs the patterns use\<close>

datatype greed = Greedy | Lazy

text \<open>
  \<open>Rep cls lo hi g\<close> is a character class repeated at least \<open>lo\<close> and at most \<open>hi\<close> times
  (\<open>None\<close>: unbounded): \<^verbatim>\<open>\d+\<close> is \<open>Rep digit_class 1 None Greedy\<close>,
  \<^verbatim>\<open>[...]+?\<close> is \<open>Rep ... 1 None Lazy\<close>, \<^verbatim>\<open>\d{2,4}\<close> is
  \<open>Rep digit_class 2 (Some 4) Greedy\<close>. \<open>Opt\<close> is a greedy \<^verbatim>\<open>(?:...)?\<close> and
  \<open>Group\<close> is \<^verbatim>\<open>(?P<name>...)\<close>.
\<close>

datatype regex =
    Rep char_class nat "nat option" greed
  | Lit char
  | Seq regex regex
  | Opt regex
  | Group string regex

type_synonym groups = "(string \<times> string) list"

text \<open>
  The suffixes left after consuming 0, 1, 2, ... characters of a class, as long as the
  characters belong to it.
\<close>

fun rests :: "char_class \<Rightarrow> string \<Rightarrow> string list" where
  "rests cls [] = [[]]"
| "rests cls (c # cs) = (c # cs) # (if in_class cls c then rests cls cs else [])"

definition window :: "nat \<Rightarrow> nat option \<Rightarrow> 'a list \<Rightarrow> 'a list" where
  "window lo hi xs = (case hi of None \<Rightarrow> drop lo xs | Some h \<Rightarrow> take (Suc h - lo) (drop lo xs))"

definition attempts :: "greed \<Rightarrow> 'a list \<Rightarrow> 'a list" where
  "attempts g xs = (case g of Lazy \<Rightarrow> xs | Greedy \<Rightarrow> rev xs)"

text \<open>
  \<open>run r (gs, s)\<close> lists, in the order in which a backtracking engine tries them, every
  way of matching \<open>r\<close> at the front of \<open>s\<close>: each entry is the groups captured so far
  (latest first) and the text that is left. The engine's match is the first entry.
\<close>

fun run :: "regex \<Rightarrow> groups \<times> string \<Rightarrow> (groups \<times> string) list" where
  "run (Rep cls lo hi g) (gs, s) = map (Pair gs) (attempts g (window lo hi (rests cls s)))"
| "run (Lit c) (gs, s) = (case s of [] \<Rightarrow> [] | d # ds \<Rightarrow> if d = c then [(gs, ds)] else [])"
| "run (Seq a b) st = concat (map (run b) (run a st))"
| "run (Opt a) st = run a st @ [st]"
| "run (Group n a) (gs, s) =
     map (\<lambda>(gs', s'). ((n, take (length s - length s') s) # gs', s')) (run a (gs, s))"

record match =
  m_start :: nat
  m_end :: nat
  m_groups :: groups

text \<open>
  \<^verbatim>\<open>pattern.finditer(text)\<close>: the matches from left to right, each search starting where
  the previous match ended. \<open>pos\<close> is the offset of \<open>s\<close> in the text. A match that
  consumes nothing is followed by a search one character further on; none of the three
  patterns below can match the empty string.
\<close>

function finditer_from :: "regex \<Rightarrow> nat \<Rightarrow> string \<Rightarrow> match list" where
  "finditer_from r pos s =
     (case run r ([], s) of
        [] \<Rightarrow> (case s of [] \<Rightarrow> [] | _ # cs \<Rightarrow> finditer_from r (Suc pos) cs)
      | (gs, s') # _ \<Rightarrow>
          if length s' < length s
          then \<lparr>m_start = pos, m_end = pos + (length s - length s'), m_groups = gs\<rparr>
                 # finditer_from r (pos + (length s - length s')) s'
          else \<lparr>m_start = pos, m_end = pos, m_groups = gs\<rparr>
                 # (case s of [] \<Rightarrow> [] | _ # cs \<Rightarrow> finditer_from r (Suc pos) cs))"
  by pat_completeness auto
termination
  by (relation "measure (\<lambda>(r, pos, s). length s)") auto

definition finditer :: "regex \<Rightarrow> string \<Rightarrow> match list" where
  "finditer r text = finditer_from r 0 text"

section \<open>The three layout patterns\<close>

definition ws :: regex where
  "ws = Rep space_class 1 None Greedy"

definition digits :: regex where
  "digits = Rep digit_class 1 None Greedy"

text \<open>\<^verbatim>\<open>\d+(?:\.\d+)?\<close>\<close>

definition number :: regex where
  "number = Seq digits (Opt (Seq (Lit (CHR ''.'')) digits))"

text \<open>\<^verbatim>\<open>\s+(?P<qty>...)\s+(?P<rate>...)\s+(?P<amount>...)\<close>\<close>

definition triple :: regex where
  "triple =
     Seq ws (Seq (Group ''qty'' number)
       (Seq ws (Seq (Group ''rate'' number)
         (Seq ws (Group ''amount'' number)))))"

text \<open>\<^verbatim>\<open>[A-Za-z0-9\-\(\)\/\., ]\<close>\<close>

definition pharmacy_name :: char_class where
  "pharmacy_name =
     [(CHR ''A'', CHR ''Z''), (CHR ''a'', CHR ''z''), (CHR ''0'', CHR ''9''),
      one (CHR ''-''), one (CHR ''(''), one (CHR '')''), one (CHR ''/''),
      one (CHR ''.''), one (CHR '',''), one (CHR '' '')]"

text \<open>\<^verbatim>\<open>[A-Za-z0-9\-\|\.\(\)\/, ]\<close>\<close>

definition hospital_name :: char_class where
  "hospital_name =
     [(CHR ''A'', CHR ''Z''), (CHR ''a'', CHR ''z''), (CHR ''0'', CHR ''9''),
      one (CHR ''-''), one (CHR ''|''), one (CHR ''.''), one (CHR ''(''),
      one (CHR '')''), one (CHR ''/''), one (CHR '',''), one (CHR '' '')]"

definition name_group :: "char_class \<Rightarrow> regex" where
  "name_group cls = Group ''name'' (Rep cls 1 None Lazy)"

text \<open>Pharmacy style: SL + Description + Qty + Rate + Amount\<close>

definition pharmacy :: regex where
  "pharmacy = Seq (Opt (Seq digits ws)) (Seq (name_group pharmacy_name) triple)"

text \<open>Hospital style: Description + Qty + Rate + Net Amount\<close>

definition hospital :: regex where
  "hospital = Seq (name_group hospital_name) triple"

text \<open>\<^verbatim>\<open>\s+\d{1,2}\/\d{1,2}\/\d{2,4}\<close>\<close>

definition date :: regex where
  "date =
     Seq ws (Seq (Rep digit_class 1 (Some 2) Greedy) (Seq (Lit (CHR ''/''))
       (Seq (Rep digit_class 1 (Some 2) Greedy) (Seq (Lit (CHR ''/''))
         (Rep digit_class 2 (Some 4) Greedy)))))"

text \<open>Investigation style: Description + Date + Qty + Rate + Amount\<close>

definition investigation :: regex where
  "investigation = Seq (name_group pharmacy_name) (Seq date triple)"

definition patterns :: "regex list" where
  "patterns = [pharmacy, hospital, investigation]"

section \<open>Name normalisation and numeric parsing\<close>

text \<open>
  \<^verbatim>\<open>re.sub(pattern, repl, s)\<close> for a replacement text without group references: the text
  between matches is copied, every match is replaced by \<open>repl\<close>.
\<close>

function re_sub :: "regex \<Rightarrow> string \<Rightarrow> string \<Rightarrow> string" where
  "re_sub r repl s =
     (case run r ([], s) of
        [] \<Rightarrow> (case s of [] \<Rightarrow> [] | c # cs \<Rightarrow> c # re_sub r repl cs)
      | (gs, s') # _ \<Rightarrow>
          if length s' < length s then repl @ re_sub r repl s'
          else repl @ (case s of [] \<Rightarrow> [] | c # cs \<Rightarrow> c # re_sub r repl cs))"
  by pat_completeness auto
termination
  by (relation "measure (\<lambda>(r, repl, s). length s)") auto

text \<open>\<^verbatim>\<open>str.strip()\<close>\<close>

definition strip :: "string \<Rightarrow> string" where
  "strip s = rev (dropWhile is_space (rev (dropWhile is_space s)))"

text \<open>\<^verbatim>\<open>re.sub(r"\s+", " ", name).strip()\<close>\<close>

definition normalize_name :: "string \<Rightarrow> string" where
  "normalize_name raw = strip (re_sub ws '' '' raw)"

datatype py_error = ValueError | IndexError

definition digit_value :: "char \<Rightarrow> nat" where
  "digit_value c = of_char c - 48"

definition digits_value :: "string \<Rightarrow> nat" where
  "digits_value ds = foldl (\<lambda>n d. 10 * n + digit_value d) 0 ds"

text \<open>
  \<^verbatim>\<open>float(s)\<close> on unsigned plain decimal literals (digits, optionally a point and
  more digits, at least one digit in all); every other text is a \<open>ValueError\<close> here,
  although Python also reads signs, exponents, underscores, surrounding whitespace,
  \<^verbatim>\<open>inf\<close> and \<^verbatim>\<open>nan\<close>. The value is the exact decimal value; Python rounds it
  to the nearest binary64, which keeps its sign.
\<close>

definition py_float :: "string \<Rightarrow> py_error + rat" where
  "py_float s =
     (let ip = takeWhile is_digit s in
      case dropWhile is_digit s of
        [] \<Rightarrow> if ip = [] then Inl ValueError else Inr (of_nat (digits_value ip))
      | c # fp \<Rightarrow>
          if c = CHR ''.'' \<and> list_all is_digit fp \<and> (ip \<noteq> [] \<or> fp \<noteq> [])
          then Inr (of_nat (digits_value ip) + of_nat (digits_value fp) / 10 ^ length fp)
          else Inl ValueError)"

section \<open>The extractor\<close>

record line_item =
  item_name :: string
  item_quantity :: rat
  item_rate :: rat
  item_amount :: rat

text \<open>\<^verbatim>\<open>m.group(name)\<close>: the text of the latest capture of the group.\<close>

definition group :: "match \<Rightarrow> string \<Rightarrow> py_error + string" where
  "group m n = (case map_of (m_groups m) n of None \<Rightarrow> Inl IndexError | Some w \<Rightarrow> Inr w)"

definition float_group :: "match \<Rightarrow> string \<Rightarrow> py_error + rat" where
  "float_group m n = (case group m n of Inl e \<Rightarrow> Inl e | Inr w \<Rightarrow> py_float w)"

text \<open>The body of the inner loop: the item built from one match.\<close>

definition make_item :: "match \<Rightarrow> py_error + line_item" where
  "make_item m =
     (case group m ''name'' of Inl e \<Rightarrow> Inl e | Inr raw \<Rightarrow>
      case float_group m ''qty'' of Inl e \<Rightarrow> Inl e | Inr qty \<Rightarrow>
      case float_group m ''rate'' of Inl e \<Rightarrow> Inl e | Inr rate \<Rightarrow>
      case float_group m ''amount'' of Inl e \<Rightarrow> Inl e | Inr amount \<Rightarrow>
        Inr \<lparr>item_name = normalize_name raw, item_quantity = qty,
             item_rate = rate, item_amount = amount\<rparr>)"

text \<open>\<^verbatim>\<open>for m in pattern.finditer(text): ... items.append(...)\<close>\<close>

fun matches_loop :: "match list \<Rightarrow> line_item list \<Rightarrow> py_error + line_item list" where
  "matches_loop [] items = Inr items"
| "matches_loop (m # ms) items =
     (case make_item m of Inl e \<Rightarrow> Inl e | Inr it \<Rightarrow> matches_loop ms (items @ [it]))"

text \<open>\<^verbatim>\<open>for pattern in patterns: ...\<close>\<close>

fun patterns_loop :: "regex list \<Rightarrow> string \<Rightarrow> line_item list \<Rightarrow> py_error + line_item list" where
  "patterns_loop [] text items = Inr items"
| "patterns_loop (p # ps) text items =
     (case matches_loop (finditer p text) items of
        Inl e \<Rightarrow> Inl e
      | Inr items' \<Rightarrow> patterns_loop ps text items')"

definition extract_bill_items_regex :: "string \<Rightarrow> py_error + line_item list" where
  "extract_bill_items_regex text = patterns_loop patterns text []"

section \<open>The upload gate\<close>

definition ALLOWED_EXTENSIONS :: "string set" where
  "ALLOWED_EXTENSIONS = {''pdf'', ''png'', ''jpg'', ''jpeg''}"

text \<open>\<^verbatim>\<open>s.rsplit(sep, 1)\<close>: split at the last separator, or the whole text alone.\<close>

definition rsplit1 :: "char \<Rightarrow> string \<Rightarrow> string list" where
  "rsplit1 sep s =
     (if sep \<in> set s
      then [rev (tl (dropWhile (\<lambda>c. c \<noteq> sep) (rev s))), rev (takeWhile (\<lambda>c. c \<noteq> sep) (rev s))]
      else [s])"

text \<open>\<^verbatim>\<open>xs[i]\<close> for \<open>i \<ge> 0\<close>\<close>

definition index :: "'a list \<Rightarrow> nat \<Rightarrow> py_error + 'a" where
  "index xs i = (if i < length xs then Inr (xs ! i) else Inl IndexError)"

text \<open>\<^verbatim>\<open>str.lower()\<close> on code points below 256\<close>

definition lower_char :: "char \<Rightarrow> char" where
  "lower_char c =
     (if (CHR ''A'' \<le> c \<and> c \<le> CHR ''Z'') \<or> (CHR 0xC0 \<le> c \<and> c \<le> CHR 0xDE \<and> c \<noteq> CHR 0xD7)
      then char_of (of_char c + (32::nat)) else c)"

definition lower :: "string \<Rightarrow> string" where
  "lower s = map lower_char s"

text \<open>\<^verbatim>\<open>filename.rsplit(".", 1)[1].lower()\<close>\<close>

definition extension :: "string \<Rightarrow> py_error + string" where
  "extension filename =
     (case index (rsplit1 (CHR ''.'') filename) 1 of Inl e \<Rightarrow> Inl e | Inr ext \<Rightarrow> Inr (lower ext))"

definition allowed_file :: "string \<Rightarrow> py_error + bool" where
  "allowed_file filename =
     (if CHR ''.'' \<in> set filename
      then (case extension filename of Inl e \<Rightarrow> Inl e | Inr ext \<Rightarrow> Inr (ext \<in> ALLOWED_EXTENSIONS))
      else Inr False)"

section \<open>The webhook\<close>

record page_entry =
  page_no :: string
  page_type :: string
  bill_items :: "line_item list"

record token_usage =
  total_tokens :: nat
  input_tokens :: nat
  output_tokens :: nat

record response_data =
  pagewise_line_items :: "page_entry list"
  total_item_count :: nat

record response =
  is_success :: bool
  usage :: token_usage
  data :: response_data

text \<open>The keys of \<^verbatim>\<open>extracted\<close>: page numbers for a PDF, the text \<^verbatim>\<open>page_1\<close> for an image.\<close>

datatype page_key = Page_num nat | Page_label string

definition digit_char :: "nat \<Rightarrow> char" where
  "digit_char d = char_of (48 + d)"

text \<open>\<^verbatim>\<open>str(n)\<close> for \<open>n \<ge> 0\<close>\<close>

fun str_nat :: "nat \<Rightarrow> string" where
  "str_nat n = (if n < 10 then [digit_char n] else str_nat (n div 10) @ [digit_char (n mod 10)])"

text \<open>
  \<^verbatim>\<open>for idx, (page_no, text) in enumerate(extracted.items()): ...\<close>, with the loop's
  variables \<open>page_items\<close> and \<open>total_item_count\<close> (here \<open>count\<close>).
\<close>

fun pages_loop ::
  "nat \<Rightarrow> (page_key \<times> string) list \<Rightarrow> page_entry list \<Rightarrow> nat \<Rightarrow> py_error + page_entry list \<times> nat"
where
  "pages_loop idx [] page_items count = Inr (page_items, count)"
| "pages_loop idx ((key, text) # rest) page_items count =
     (case extract_bill_items_regex text of
        Inl e \<Rightarrow> Inl e
      | Inr items \<Rightarrow>
          pages_loop (Suc idx) rest
            (page_items @ [\<lparr>page_no = str_nat (idx + 1), page_type = ''Bill Detail'',
                             bill_items = items\<rparr>])
            (count + length items))"

definition structure_output :: "(page_key \<times> string) list \<Rightarrow> py_error + response" where
  "structure_output extracted =
     (case pages_loop 0 extracted [] 0 of
        Inl e \<Rightarrow> Inl e
      | Inr (page_items, count) \<Rightarrow>
          Inr \<lparr>is_success = True,
               usage = \<lparr>total_tokens = 0, input_tokens = 0, output_tokens = 0\<rparr>,
               data = \<lparr>pagewise_line_items = page_items, total_item_count = count\<rparr>\<rparr>)"

text \<open>
  What the handler does to the outside world, in order; the response's detail text is left
  out (it joins a set in iteration order).
\<close>

datatype event = Saved string | Pdf_ocr string | Image_ocr | Removed string

datatype http_error = HTTPException (status_code: nat)

text \<open>What can be raised inside the handler's \<^verbatim>\<open>try\<close>; all of it derives from \<^verbatim>\<open>Exception\<close>.\<close>

datatype raised = Http http_error | Py py_error | Ocr_failure

text \<open>
  The OCR stage is an external collaborator: \<open>pdf_ocr\<close> gives the texts of the pages of
  the saved file in page order (\<^verbatim>\<open>simple_pdf_ocr\<close> keys them 1, 2, ...), \<open>image_ocr\<close> the
  text of an image; \<open>None\<close> is a failure of the collaborator.
\<close>

definition pdf_pages :: "string list \<Rightarrow> (page_key \<times> string) list" where
  "pdf_pages texts = zip (map Page_num [1..<Suc (length texts)]) texts"

definition run_ocr ::
  "('b \<Rightarrow> string list option) \<Rightarrow> ('b \<Rightarrow> string option) \<Rightarrow> string \<Rightarrow> string \<Rightarrow> 'b
     \<Rightarrow> event list \<times> (raised + (page_key \<times> string) list)"
where
  "run_ocr pdf_ocr image_ocr ext file_path file_bytes =
     (if ext = ''pdf''
      then ([Pdf_ocr file_path],
            case pdf_ocr file_bytes of None \<Rightarrow> Inl Ocr_failure | Some texts \<Rightarrow> Inr (pdf_pages texts))
      else ([Image_ocr],
            case image_ocr file_bytes of None \<Rightarrow> Inl Ocr_failure
            | Some text \<Rightarrow> Inr [(Page_label ''page_1'', text)]))"

text \<open>
  The body of the \<^verbatim>\<open>try\<close> block. \<open>file_path\<close> is
  \<^verbatim>\<open>os.path.join(UPLOAD_FOLDER, file.filename)\<close> for a relative file name on a POSIX system;
  it only labels the events.
\<close>

definition webhook_body ::
  "('b \<Rightarrow> string list option) \<Rightarrow> ('b \<Rightarrow> string option) \<Rightarrow> string \<Rightarrow> 'b
     \<Rightarrow> event list \<times> (raised + response)"
where
  "webhook_body pdf_ocr image_ocr filename file_bytes =
     (case allowed_file filename of
        Inl e \<Rightarrow> ([], Inl (Py e))
      | Inr False \<Rightarrow> ([], Inl (Http (HTTPException 400)))
      | Inr True \<Rightarrow>
          let file_path = ''uploads/'' @ filename in
          (case extension filename of
             Inl e \<Rightarrow> ([Saved file_path], Inl (Py e))
           | Inr ext \<Rightarrow>
               (case run_ocr pdf_ocr image_ocr ext file_path file_bytes of
                  (evs, Inl e) \<Rightarrow> (Saved file_path # evs, Inl e)
                | (evs, Inr extracted) \<Rightarrow>
                    (Saved file_path # evs @ [Removed file_path],
                     case structure_output extracted of Inl e \<Rightarrow> Inl (Py e) | Inr r \<Rightarrow> Inr r))))"

text \<open>
  \<^verbatim>\<open>except Exception as e: raise HTTPException(status_code=500, detail=str(e))\<close> around
  the body.
\<close>

definition ocr_webhook ::
  "('b \<Rightarrow> string list option) \<Rightarrow> ('b \<Rightarrow> string option) \<Rightarrow> string \<Rightarrow> 'b
     \<Rightarrow> event list \<times> (http_error + response)"
where
  "ocr_webhook pdf_ocr image_ocr filename file_bytes =
     (case webhook_body pdf_ocr image_ocr filename file_bytes of
        (evs, Inl e) \<Rightarrow> (evs, Inl (HTTPException 500))
      | (evs, Inr r) \<Rightarrow> (evs, Inr r))"

section \<open>Notions used in the statements and proofs\<close>

text \<open>What the inner loop of the extractor yields for one pattern, starting from no items.\<close>

definition pattern_items :: "regex \<Rightarrow> string \<Rightarrow> py_error + line_item list" where
  "pattern_items r text = matches_loop (finditer r text) []"

text \<open>
  Every whitespace character of a tidy text is a space, and the character after it, if any,
  is not whitespace.
\<close>

fun tidy :: "string \<Rightarrow> bool" where
  "tidy [] = True"
| "tidy (c # cs) =
     ((is_space c \<longrightarrow> c = CHR '' '' \<and> (cs = [] \<or> \<not> is_space (hd cs))) \<and> tidy cs)"

text \<open>A pattern without capture groups.\<close>

fun no_groups :: "regex \<Rightarrow> bool" where
  "no_groups (Group n a) = False"
| "no_groups (Seq a b) = (no_groups a \<and> no_groups b)"
| "no_groups (Opt a) = no_groups a"
| "no_groups (Rep cls lo hi g) = True"
| "no_groups (Lit c) = True"

text \<open>The texts \<^verbatim>\<open>\d+(?:\.\d+)?\<close> can match: digits, optionally a point and more digits.\<close>

definition numeral_text :: "string \<Rightarrow> bool" where
  "numeral_text w =
     (takeWhile is_digit w \<noteq> [] \<and>
      (case dropWhile is_digit w of
         [] \<Rightarrow> True
       | c # fp \<Rightarrow> c = CHR ''.'' \<and> fp \<noteq> [] \<and> list_all is_digit fp))"

text \<open>The groups of a match of one of the three patterns: the four names, latest first.\<close>

definition item_groups :: "groups \<Rightarrow> bool" where
  "item_groups gs \<longleftrightarrow>
     (\<exists>nm q r a. gs = [(''amount'', a), (''rate'', r), (''qty'', q), (''name'', nm)]
        \<and> numeral_text q \<and> numeral_text r \<and> numeral_text a)"

text \<open>
  A whitespace-normalised text: its only whitespace characters are spaces, no two of them
  are adjacent, and none is at its start or at its end.
\<close>

definition whitespace_normalized :: "string \<Rightarrow> bool" where
  "whitespace_normalized s \<longleftrightarrow>
     list_all (\<lambda>c. is_space c \<longrightarrow> c = CHR '' '') s \<and> \<not> sublist ''  '' s
     \<and> \<not> prefix '' '' s \<and> \<not> suffix '' '' s"

text \<open>
  The record invariant of a line item without the demand that the name be non-empty:
  quantity, rate and amount are non-negative and the name is whitespace-normalised.
\<close>

definition item_ok :: "line_item \<Rightarrow> bool" where
  "item_ok it \<longleftrightarrow>
     0 \<le> item_quantity it \<and> 0 \<le> item_rate it \<and> 0 \<le> item_amount it
     \<and> whitespace_normalized (item_name it)"

text \<open>A match lies wholly before another: it starts earlier and ends where the other starts, or before.\<close>

definition in_order :: "match \<Rightarrow> match \<Rightarrow> bool" where
  "in_order m m' \<longleftrightarrow> m_start m < m_start m' \<and> m_end m \<le> m_start m'"

text \<open>The pattern matches at no position of the text.\<close>

definition matches_nowhere :: "regex \<Rightarrow> string \<Rightarrow> bool" where
  "matches_nowhere r text \<longleftrightarrow> list_all (\<lambda>s. run r ([], s) = []) (suffixes text)"

declare re_sub.simps [simp del]
declare finditer_from.simps [simp del]

section \<open>The matcher on whitespace\<close>

lemma rests_nonempty: "rests cls s \<noteq> []"
  by (cases s) auto

lemma last_rests: "last (rests cls s) = dropWhile (in_class cls) s"
  by (induction s) (auto simp: rests_nonempty)

lemma hd_rev_rests: "hd (rev (rests cls s)) = dropWhile (in_class cls) s"
  by (simp add: hd_rev last_rests rests_nonempty)

lemma run_ws_Nil: "run ws (gs, []) = []"
  by (simp add: ws_def attempts_def window_def)

lemma run_ws_Cons:
  "run ws (gs, c # cs) =
     (if is_space c then map (Pair gs) (rev (rests space_class cs)) else [])"
  by (simp add: ws_def attempts_def window_def is_space_def)

lemma length_dropWhile_less: "length (dropWhile P cs) < Suc (length cs)"
  by (simp add: length_dropWhile_le le_imp_less_Suc)

lemma hd_dropWhile_not: "dropWhile P xs \<noteq> [] \<Longrightarrow> \<not> P (hd (dropWhile P xs))"
  by (simp add: hd_dropWhile)

lemma dropWhile_noop: "xs = [] \<or> \<not> P (hd xs) \<Longrightarrow> dropWhile P xs = xs"
  by (cases xs) auto

section \<open>Replacing whitespace runs\<close>

lemma re_sub_ws_Nil: "re_sub ws repl [] = []"
  by (subst re_sub.simps) (simp add: run_ws_Nil)

text \<open>A run of whitespace is replaced as a whole; any other character is copied.\<close>

lemma re_sub_ws_Cons:
  "re_sub ws repl (c # cs) =
     (if is_space c then repl @ re_sub ws repl (dropWhile is_space cs)
      else c # re_sub ws repl cs)"
proof (cases "is_space c")
  case False
  then show ?thesis by (subst re_sub.simps) (simp add: run_ws_Cons)
next
  case True
  obtain xs where xs: "rev (rests space_class cs) = dropWhile is_space cs # xs"
    using hd_rev_rests [of space_class cs] rests_nonempty [of space_class cs]
    by (cases "rev (rests space_class cs)") (auto simp: is_space_def)
  show ?thesis using True
    by (subst re_sub.simps) (simp add: run_ws_Cons xs length_dropWhile_less)
qed

lemma hd_re_sub_ws:
  "s \<noteq> [] \<Longrightarrow> \<not> is_space (hd s) \<Longrightarrow> re_sub ws repl s \<noteq> [] \<and> hd (re_sub ws repl s) = hd s"
  by (cases s) (simp_all add: re_sub_ws_Cons)

lemma tidy_re_sub_ws: "tidy (re_sub ws '' '' s)"
proof (induction s rule: length_induct)
  case (1 s)
  show ?case
  proof (cases s)
    case Nil
    then show ?thesis by (simp add: re_sub_ws_Nil)
  next
    case (Cons c cs)
    show ?thesis
    proof (cases "is_space c")
      case False
      with Cons 1 show ?thesis by (simp add: re_sub_ws_Cons)
    next
      case True
      let ?t = "dropWhile is_space cs"
      have len: "length ?t < length s"
        using Cons by (simp add: length_dropWhile_less)
      have t: "tidy (re_sub ws '' '' ?t)" using 1 len by blast
      have "re_sub ws '' '' ?t = [] \<or> \<not> is_space (hd (re_sub ws '' '' ?t))"
      proof (cases "?t = []")
        case True
        then have "re_sub ws '' '' ?t = []" by (simp only: re_sub_ws_Nil)
        then show ?thesis ..
      next
        case False
        then have "\<not> is_space (hd ?t)" by (rule hd_dropWhile_not)
        with False show ?thesis using hd_re_sub_ws [of ?t "'' ''"] by simp
      qed
      with t True Cons show ?thesis by (simp add: re_sub_ws_Cons)
    qed
  qed
qed

lemma re_sub_ws_tidy: "tidy t \<Longrightarrow> re_sub ws '' '' t = t"
proof (induction t)
  case Nil
  then show ?case by (simp add: re_sub_ws_Nil)
next
  case (Cons c cs)
  then show ?case by (auto simp: re_sub_ws_Cons dropWhile_noop)
qed

section \<open>Stripping\<close>

lemma tidy_dropWhile: "tidy t \<Longrightarrow> tidy (dropWhile P t)"
  by (induction t) auto

lemma tidy_append_left: "tidy (xs @ ys) \<Longrightarrow> tidy xs"
  by (induction xs) auto

lemma rstrip_prefix: "rev (dropWhile P (rev t)) @ rev (takeWhile P (rev t)) = t"
proof -
  have "rev (takeWhile P (rev t) @ dropWhile P (rev t)) = t" by simp
  then show ?thesis by (simp only: rev_append)
qed

lemma tidy_strip: "tidy t \<Longrightarrow> tidy (strip t)"
proof -
  assume t: "tidy t"
  let ?u = "dropWhile is_space t"
  have "tidy ?u" using t by (rule tidy_dropWhile)
  then have "tidy (rev (dropWhile is_space (rev ?u)) @ rev (takeWhile is_space (rev ?u)))"
    by (simp only: rstrip_prefix)
  then show ?thesis unfolding strip_def by (rule tidy_append_left)
qed

lemma strip_no_leading: "strip t = [] \<or> \<not> is_space (hd (strip t))"
proof (cases "strip t = []")
  case True
  then show ?thesis by simp
next
  case False
  let ?u = "dropWhile is_space t"
  have u: "?u \<noteq> []"
  proof
    assume e: "?u = []"
    have "strip t = []" unfolding strip_def e by simp
    with False show False ..
  qed
  have "strip t @ rev (takeWhile is_space (rev ?u)) = ?u"
    unfolding strip_def by (rule rstrip_prefix)
  then have "hd (strip t) = hd ?u" using False by (metis hd_append2)
  then show ?thesis using hd_dropWhile_not [OF u] by simp
qed

lemma strip_no_trailing: "strip t = [] \<or> \<not> is_space (last (strip t))"
proof (cases "strip t = []")
  case True
  then show ?thesis by simp
next
  case False
  let ?v = "dropWhile is_space (rev (dropWhile is_space t))"
  have v: "?v \<noteq> []" using False by (simp add: strip_def)
  have "last (strip t) = hd ?v" using v by (simp add: strip_def last_rev)
  then show ?thesis using hd_dropWhile_not [OF v] by simp
qed

lemma strip_strip: "strip (strip t) = strip t"
proof -
  have 1: "dropWhile is_space (strip t) = strip t"
    using strip_no_leading [of t] by (rule dropWhile_noop)
  have "strip (strip t) = rev (dropWhile is_space (rev (strip t)))"
    by (simp add: strip_def [of "strip t"] 1)
  also have "\<dots> = strip t" by (simp add: strip_def)
  finally show ?thesis .
qed

lemma tidy_normalize_name: "tidy (normalize_name s)"
  unfolding normalize_name_def by (rule tidy_strip) (rule tidy_re_sub_ws)

section \<open>What a run of the matcher returns\<close>

lemma in_window: "x \<in> set (window lo hi xs) \<Longrightarrow> x \<in> set (drop lo xs)"
  by (auto simp: window_def split: option.splits dest: in_set_takeD)

lemma set_attempts: "set (attempts g xs) = set xs"
  by (cases g) (simp_all add: attempts_def)

lemma in_rests: "s' \<in> set (rests cls s) \<Longrightarrow> \<exists>w. s = w @ s' \<and> list_all (in_class cls) w"
proof (induction s)
  case Nil
  then show ?case by simp
next
  case (Cons c cs)
  show ?case
  proof (cases "s' = c # cs")
    case True
    then show ?thesis by simp
  next
    case False
    with Cons.prems have c: "in_class cls c" and "s' \<in> set (rests cls cs)"
      by (auto split: if_splits)
    then obtain w where "cs = w @ s'" "list_all (in_class cls) w"
      using Cons.IH by blast
    then have "c # cs = (c # w) @ s' \<and> list_all (in_class cls) (c # w)"
      using c by simp
    then show ?thesis by blast
  qed
qed

lemma in_drop_rests:
  "s' \<in> set (drop k (rests cls s)) \<Longrightarrow> \<exists>w. s = w @ s' \<and> list_all (in_class cls) w \<and> k \<le> length w"
proof (induction k arbitrary: s)
  case 0
  then show ?case using in_rests [of s' cls s] by simp
next
  case (Suc k)
  show ?case
  proof (cases s)
    case Nil
    with Suc.prems show ?thesis by simp
  next
    case (Cons c cs)
    with Suc.prems have c: "in_class cls c" and "s' \<in> set (drop k (rests cls cs))"
      by (auto split: if_splits)
    then obtain w where "cs = w @ s'" "list_all (in_class cls) w" "k \<le> length w"
      using Suc.IH by blast
    then have "s = (c # w) @ s' \<and> list_all (in_class cls) (c # w) \<and> Suc k \<le> length (c # w)"
      using c Cons by simp
    then show ?thesis by blast
  qed
qed

lemma run_Rep:
  "(gs', s') \<in> set (run (Rep cls lo hi g) (gs, s)) \<Longrightarrow>
     gs' = gs \<and> (\<exists>w. s = w @ s' \<and> list_all (in_class cls) w \<and> lo \<le> length w)"
proof -
  assume "(gs', s') \<in> set (run (Rep cls lo hi g) (gs, s))"
  then have g: "gs' = gs" and "s' \<in> set (window lo hi (rests cls s))"
    by (auto simp: set_attempts)
  then have "s' \<in> set (drop lo (rests cls s))" by (simp add: in_window)
  then have "\<exists>w. s = w @ s' \<and> list_all (in_class cls) w \<and> lo \<le> length w"
    by (rule in_drop_rests)
  with g show ?thesis by simp
qed

lemma run_Lit: "(gs', s') \<in> set (run (Lit c) (gs, s)) \<Longrightarrow> gs' = gs \<and> s = c # s'"
  by (auto split: list.splits if_splits)

lemma run_Seq:
  "st' \<in> set (run (Seq a b) st) \<longleftrightarrow> (\<exists>st1 \<in> set (run a st). st' \<in> set (run b st1))"
  by auto

lemma run_Opt: "st' \<in> set (run (Opt a) st) \<longleftrightarrow> st' \<in> set (run a st) \<or> st' = st"
  by auto

lemma run_Group:
  "(gs', s') \<in> set (run (Group n a) (gs, s)) \<longleftrightarrow>
     (\<exists>gs1. (gs1, s') \<in> set (run a (gs, s)) \<and> gs' = (n, take (length s - length s') s) # gs1)"
  by auto

lemma run_suffix: "(gs', s') \<in> set (run r (gs, s)) \<Longrightarrow> suffix s' s"
proof (induction r arbitrary: gs s gs' s')
  case (Rep cls lo hi g)
  then have "gs' = gs \<and> (\<exists>w. s = w @ s' \<and> list_all (in_class cls) w \<and> lo \<le> length w)"
    by (rule run_Rep)
  then show ?case by (auto simp: suffix_def)
next
  case (Lit c)
  then have "gs' = gs \<and> s = c # s'" by (rule run_Lit)
  then show ?case by (simp add: suffix_def)
next
  case (Seq a b)
  from Seq.prems obtain gs1 s1 where 1: "(gs1, s1) \<in> set (run a (gs, s))"
    and 2: "(gs', s') \<in> set (run b (gs1, s1))"
    unfolding run_Seq by auto
  from Seq.IH(1) [OF 1] Seq.IH(2) [OF 2] show ?case by (rule suffix_order.trans [rotated])
next
  case (Opt a)
  then show ?case unfolding run_Opt by auto
next
  case (Group n a)
  then show ?case unfolding run_Group by auto
qed

lemma run_no_groups: "no_groups r \<Longrightarrow> (gs', s') \<in> set (run r (gs, s)) \<Longrightarrow> gs' = gs"
proof (induction r arbitrary: gs s gs' s')
  case (Rep cls lo hi g)
  from Rep.prems(2)
  have "gs' = gs \<and> (\<exists>w. s = w @ s' \<and> list_all (in_class cls) w \<and> lo \<le> length w)"
    by (rule run_Rep)
  then show ?case ..
next
  case (Lit c)
  from Lit.prems(2) have "gs' = gs \<and> s = c # s'" by (rule run_Lit)
  then show ?case ..
next
  case (Seq a b)
  from Seq.prems(2) obtain gs1 s1 where 1: "(gs1, s1) \<in> set (run a (gs, s))"
    and 2: "(gs', s') \<in> set (run b (gs1, s1))"
    unfolding run_Seq by auto
  from Seq.prems(1) have "no_groups a" "no_groups b" by simp_all
  then show ?case using Seq.IH(1) [OF _ 1] Seq.IH(2) [OF _ 2] by simp
next
  case (Opt a)
  then show ?case unfolding run_Opt by auto
next
  case (Group n a)
  then show ?case by simp
qed

lemma run_SeqE:
  assumes "st' \<in> set (run (Seq a b) st)"
  obtains g1 s1 where "(g1, s1) \<in> set (run a st)" "st' \<in> set (run b (g1, s1))"
  using assms by auto

lemma not_digit_dot: "\<not> is_digit (CHR ''.'')"
  by (simp add: is_digit_def in_class_def digit_class_def)

lemma run_digits:
  assumes "(gs', s') \<in> set (run digits (gs, s))"
  obtains w where "gs' = gs" "s = w @ s'" "w \<noteq> []" "list_all is_digit w"
proof -
  from assms
  have "gs' = gs \<and> (\<exists>w. s = w @ s' \<and> list_all (in_class digit_class) w \<and> 1 \<le> length w)"
    unfolding digits_def by (rule run_Rep)
  then obtain w where "gs' = gs" "s = w @ s'" "list_all is_digit w" "1 \<le> length w"
    unfolding is_digit_def by auto
  moreover from this have "w \<noteq> []" by auto
  ultimately show ?thesis using that by simp
qed

lemma numeral_text_int:
  assumes "w \<noteq> []" "list_all is_digit w"
  shows "numeral_text w"
proof -
  have t: "takeWhile is_digit w = w" using assms(2) by (simp add: list_all_iff)
  have d: "dropWhile is_digit w = []" using assms(2) by (simp add: list_all_iff)
  show ?thesis unfolding numeral_text_def t d using assms(1) by simp
qed

lemma numeral_text_frac:
  assumes "a \<noteq> []" "list_all is_digit a" "b \<noteq> []" "list_all is_digit b"
  shows "numeral_text (a @ CHR ''.'' # b)"
proof -
  have t: "takeWhile is_digit (a @ CHR ''.'' # b) = a"
    using assms(2) by (simp add: list_all_iff not_digit_dot)
  have d: "dropWhile is_digit (a @ CHR ''.'' # b) = CHR ''.'' # b"
    using assms(2) by (simp add: list_all_iff not_digit_dot)
  show ?thesis unfolding numeral_text_def t d using assms by simp
qed

lemma run_number:
  assumes "(gs', s') \<in> set (run number (gs, s))"
  obtains w where "gs' = gs" "s = w @ s'" "numeral_text w"
proof -
  from assms [unfolded number_def]
  obtain gs1 s1 where 1: "(gs1, s1) \<in> set (run digits (gs, s))"
    and 2: "(gs', s') \<in> set (run (Opt (Seq (Lit (CHR ''.'')) digits)) (gs1, s1))"
    by (rule run_SeqE)
  from 1 obtain a where a: "gs1 = gs" "s = a @ s1" "a \<noteq> []" "list_all is_digit a"
    by (rule run_digits)
  from 2 have "(gs', s') \<in> set (run (Seq (Lit (CHR ''.'')) digits) (gs1, s1)) \<or> (gs', s') = (gs1, s1)"
    by (simp only: run_Opt)
  then show ?thesis
  proof
    assume "(gs', s') = (gs1, s1)"
    then have "gs' = gs" "s = a @ s'" using a by simp_all
    moreover have "numeral_text a" using a(3,4) by (rule numeral_text_int)
    ultimately show ?thesis by (rule that)
  next
    assume "(gs', s') \<in> set (run (Seq (Lit (CHR ''.'')) digits) (gs1, s1))"
    then obtain gs2 s2 where 3: "(gs2, s2) \<in> set (run (Lit (CHR ''.'')) (gs1, s1))"
      and 4: "(gs', s') \<in> set (run digits (gs2, s2))"
      by (rule run_SeqE)
    from 3 have l: "gs2 = gs1 \<and> s1 = CHR ''.'' # s2" by (rule run_Lit)
    from 4 obtain b where b: "gs' = gs2" "s2 = b @ s'" "b \<noteq> []" "list_all is_digit b"
      by (rule run_digits)
    have "gs' = gs" using a(1) l b(1) by simp
    moreover have "s = (a @ CHR ''.'' # b) @ s'" using a(2) l b(2) by simp
    moreover have "numeral_text (a @ CHR ''.'' # b)"
      using a(3,4) b(3,4) by (rule numeral_text_frac)
    ultimately show ?thesis by (rule that)
  qed
qed

lemma run_group_number:
  assumes "(gs', s') \<in> set (run (Group n number) (gs, s))"
  obtains w where "gs' = (n, w) # gs" "s = w @ s'" "numeral_text w"
proof -
  from assms obtain gs1 where 1: "(gs1, s') \<in> set (run number (gs, s))"
    and 2: "gs' = (n, take (length s - length s') s) # gs1"
    unfolding run_Group by auto
  from 1 obtain w where w: "gs1 = gs" "s = w @ s'" "numeral_text w"
    by (rule run_number)
  have "gs' = (n, w) # gs" using 2 w(1,2) by simp
  then show ?thesis using w(2,3) by (rule that)
qed

lemma run_ws: "(gs', s') \<in> set (run ws (gs, s)) \<Longrightarrow> gs' = gs"
  unfolding ws_def by (drule run_Rep) simp

section \<open>The groups of the three patterns\<close>

lemma item_groupsI:
  "numeral_text q \<Longrightarrow> numeral_text r \<Longrightarrow> numeral_text a \<Longrightarrow>
     item_groups [(''amount'', a), (''rate'', r), (''qty'', q), (''name'', nm)]"
  by (simp add: item_groups_def)

lemma run_triple:
  assumes "(gs', s') \<in> set (run triple (gs, s))"
  obtains q r a where "gs' = (''amount'', a) # (''rate'', r) # (''qty'', q) # gs"
    "numeral_text q" "numeral_text r" "numeral_text a"
proof -
  from assms [unfolded triple_def]
  obtain g1 s1 where 1: "(g1, s1) \<in> set (run ws (gs, s))"
    and r1: "(gs', s') \<in> set (run (Seq (Group ''qty'' number)
       (Seq ws (Seq (Group ''rate'' number) (Seq ws (Group ''amount'' number))))) (g1, s1))"
    by (rule run_SeqE)
  from r1 obtain g2 s2 where 2: "(g2, s2) \<in> set (run (Group ''qty'' number) (g1, s1))"
    and r2: "(gs', s') \<in> set (run
       (Seq ws (Seq (Group ''rate'' number) (Seq ws (Group ''amount'' number)))) (g2, s2))"
    by (rule run_SeqE)
  from r2 obtain g3 s3 where 3: "(g3, s3) \<in> set (run ws (g2, s2))"
    and r3: "(gs', s') \<in> set (run
       (Seq (Group ''rate'' number) (Seq ws (Group ''amount'' number))) (g3, s3))"
    by (rule run_SeqE)
  from r3 obtain g4 s4 where 4: "(g4, s4) \<in> set (run (Group ''rate'' number) (g3, s3))"
    and r4: "(gs', s') \<in> set (run (Seq ws (Group ''amount'' number)) (g4, s4))"
    by (rule run_SeqE)
  from r4 obtain g5 s5 where 5: "(g5, s5) \<in> set (run ws (g4, s4))"
    and 6: "(gs', s') \<in> set (run (Group ''amount'' number) (g5, s5))"
    by (rule run_SeqE)
  from 1 have g1: "g1 = gs" by (rule run_ws)
  from 2 obtain q where q: "g2 = (''qty'', q) # g1" "numeral_text q"
    by (rule run_group_number)
  from 3 have g3: "g3 = g2" by (rule run_ws)
  from 4 obtain r where r: "g4 = (''rate'', r) # g3" "numeral_text r"
    by (rule run_group_number)
  from 5 have g5: "g5 = g4" by (rule run_ws)
  from 6 obtain a where a: "gs' = (''amount'', a) # g5" "numeral_text a"
    by (rule run_group_number)
  have "gs' = (''amount'', a) # (''rate'', r) # (''qty'', q) # gs"
    using g1 q(1) g3 r(1) g5 a(1) by simp
  then show ?thesis using q(2) r(2) a(2) by (rule that)
qed

lemma run_name_group:
  assumes "(gs', s') \<in> set (run (name_group cls) (gs, s))"
  obtains w where "gs' = (''name'', w) # gs"
proof -
  from assms obtain gs1 where 1: "(gs1, s') \<in> set (run (Rep cls 1 None Lazy) (gs, s))"
    and 2: "gs' = (''name'', take (length s - length s') s) # gs1"
    unfolding name_group_def run_Group by auto
  from 1 have "gs1 = gs \<and> (\<exists>w. s = w @ s' \<and> list_all (in_class cls) w \<and> 1 \<le> length w)"
    by (rule run_Rep)
  with 2 have "gs' = (''name'', take (length s - length s') s) # gs" by simp
  then show ?thesis by (rule that)
qed

lemma run_name_triple:
  assumes "(gs', s') \<in> set (run (Seq (name_group cls) triple) ([], s))"
  shows "item_groups gs'"
proof -
  from assms obtain g1 s1 where 1: "(g1, s1) \<in> set (run (name_group cls) ([], s))"
    and 2: "(gs', s') \<in> set (run triple (g1, s1))"
    by (rule run_SeqE)
  from 1 obtain nm where nm: "g1 = [(''name'', nm)]" by (rule run_name_group)
  from 2 obtain q r a where "gs' = (''amount'', a) # (''rate'', r) # (''qty'', q) # g1"
    "numeral_text q" "numeral_text r" "numeral_text a"
    by (rule run_triple)
  then show ?thesis unfolding nm by (simp add: item_groupsI)
qed

lemma no_groups_ws: "no_groups ws"
  by (simp add: ws_def)

lemma no_groups_digits: "no_groups digits"
  by (simp add: digits_def)

lemma no_groups_date: "no_groups date"
  by (simp add: date_def no_groups_ws)

lemma run_pharmacy:
  assumes "(gs', s') \<in> set (run pharmacy ([], s))"
  shows "item_groups gs'"
proof -
  from assms [unfolded pharmacy_def]
  obtain g1 s1 where 1: "(g1, s1) \<in> set (run (Opt (Seq digits ws)) ([], s))"
    and 2: "(gs', s') \<in> set (run (Seq (name_group pharmacy_name) triple) (g1, s1))"
    by (rule run_SeqE)
  have "no_groups (Opt (Seq digits ws))" by (simp add: no_groups_ws no_groups_digits)
  then have "g1 = []" using 1 by (rule run_no_groups)
  with 2 show ?thesis by (simp only: run_name_triple)
qed

lemma run_hospital: "(gs', s') \<in> set (run hospital ([], s)) \<Longrightarrow> item_groups gs'"
  unfolding hospital_def by (rule run_name_triple)

lemma run_investigation:
  assumes "(gs', s') \<in> set (run investigation ([], s))"
  shows "item_groups gs'"
proof -
  from assms [unfolded investigation_def]
  obtain g1 s1 where 1: "(g1, s1) \<in> set (run (name_group pharmacy_name) ([], s))"
    and r1: "(gs', s') \<in> set (run (Seq date triple) (g1, s1))"
    by (rule run_SeqE)
  from r1 obtain g2 s2 where 2: "(g2, s2) \<in> set (run date (g1, s1))"
    and 3: "(gs', s') \<in> set (run triple (g2, s2))"
    by (rule run_SeqE)
  from 1 obtain nm where nm: "g1 = [(''name'', nm)]" by (rule run_name_group)
  from no_groups_date 2 have g2: "g2 = g1" by (rule run_no_groups)
  from 3 obtain q r a where "gs' = (''amount'', a) # (''rate'', r) # (''qty'', q) # g2"
    "numeral_text q" "numeral_text r" "numeral_text a"
    by (rule run_triple)
  then show ?thesis unfolding g2 nm by (simp add: item_groupsI)
qed

lemma run_patterns:
  "p \<in> set patterns \<Longrightarrow> (gs', s') \<in> set (run p ([], s)) \<Longrightarrow> item_groups gs'"
  unfolding patterns_def using run_pharmacy run_hospital run_investigation by auto

section \<open>Searching\<close>

lemma finditer_from_Nil:
  "run r ([], s) = [] \<Longrightarrow>
     finditer_from r pos s = (case s of [] \<Rightarrow> [] | c # cs \<Rightarrow> finditer_from r (Suc pos) cs)"
  by (subst finditer_from.simps) simp

lemma finditer_from_match:
  "run r ([], s) = (gs, s') # rest \<Longrightarrow> length s' < length s \<Longrightarrow>
     finditer_from r pos s =
       \<lparr>m_start = pos, m_end = pos + (length s - length s'), m_groups = gs\<rparr>
         # finditer_from r (pos + (length s - length s')) s'"
  by (subst finditer_from.simps) simp

lemma finditer_from_empty_match:
  "run r ([], s) = (gs, s') # rest \<Longrightarrow> \<not> length s' < length s \<Longrightarrow>
     finditer_from r pos s =
       \<lparr>m_start = pos, m_end = pos, m_groups = gs\<rparr>
         # (case s of [] \<Rightarrow> [] | c # cs \<Rightarrow> finditer_from r (Suc pos) cs)"
  by (subst finditer_from.simps) simp

text \<open>Three cases of one search step.\<close>

lemma finditer_from_cases:
  obtains (none) "run r ([], s) = []"
      "finditer_from r pos s = (case s of [] \<Rightarrow> [] | c # cs \<Rightarrow> finditer_from r (Suc pos) cs)"
  | (match) gs s' rest where "run r ([], s) = (gs, s') # rest" "length s' < length s"
      "finditer_from r pos s =
         \<lparr>m_start = pos, m_end = pos + (length s - length s'), m_groups = gs\<rparr>
           # finditer_from r (pos + (length s - length s')) s'"
  | (empty) gs s' rest where "run r ([], s) = (gs, s') # rest" "\<not> length s' < length s"
      "finditer_from r pos s =
         \<lparr>m_start = pos, m_end = pos, m_groups = gs\<rparr>
           # (case s of [] \<Rightarrow> [] | c # cs \<Rightarrow> finditer_from r (Suc pos) cs)"
proof (cases "run r ([], s)")
  case Nil
  then show ?thesis using finditer_from_Nil none by blast
next
  case (Cons st rest)
  obtain gs s' where st: "st = (gs, s')" by (cases st)
  show ?thesis
  proof (cases "length s' < length s")
    case True
    with Cons st show ?thesis using finditer_from_match match by blast
  next
    case False
    with Cons st show ?thesis using finditer_from_empty_match empty by blast
  qed
qed

text \<open>Every match reported is the first entry of a run of the pattern on some suffix.\<close>

lemma finditer_from_groups:
  assumes Q: "\<And>s0 gs s1 rest. run r ([], s0) = (gs, s1) # rest \<Longrightarrow> Q gs"
  shows "m \<in> set (finditer_from r pos s) \<Longrightarrow> Q (m_groups m)"
proof (induction s arbitrary: pos rule: length_induct)
  case (1 s)
  show ?case
  proof (cases rule: finditer_from_cases [of r s pos])
    case none
    show ?thesis
    proof (cases s)
      case Nil
      with none(2) "1.prems" show ?thesis by simp
    next
      case (Cons c cs)
      with none(2) "1.prems" have "m \<in> set (finditer_from r (Suc pos) cs)" by simp
      moreover have "length cs < length s" using Cons by simp
      ultimately show ?thesis using "1.IH" by blast
    qed
  next
    case (match gs s' rest)
    from "1.prems" match(3)
    consider (here) "m = \<lparr>m_start = pos, m_end = pos + (length s - length s'), m_groups = gs\<rparr>"
      | (later) "m \<in> set (finditer_from r (pos + (length s - length s')) s')"
      by auto
    then show ?thesis
    proof cases
      case here
      then show ?thesis using Q [OF match(1)] by simp
    next
      case later
      then show ?thesis using "1.IH" match(2) by blast
    qed
  next
    case (empty gs s' rest)
    show ?thesis
    proof (cases "m = \<lparr>m_start = pos, m_end = pos, m_groups = gs\<rparr>")
      case True
      then show ?thesis using Q [OF empty(1)] by simp
    next
      case False
      show ?thesis
      proof (cases s)
        case Nil
        with empty(3) "1.prems" False show ?thesis by simp
      next
        case (Cons c cs)
        with empty(3) "1.prems" False have "m \<in> set (finditer_from r (Suc pos) cs)" by simp
        moreover have "length cs < length s" using Cons by simp
        ultimately show ?thesis using "1.IH" by blast
      qed
    qed
  qed
qed

lemma finditer_from_positions:
  "(\<forall>m \<in> set (finditer_from r pos s). pos \<le> m_start m \<and> m_start m \<le> m_end m)
   \<and> sorted_wrt in_order (finditer_from r pos s)"
proof (induction s arbitrary: pos rule: length_induct)
  case (1 s)
  have tail: "(\<forall>m \<in> set (case s of [] \<Rightarrow> [] | c # cs \<Rightarrow> finditer_from r (Suc pos) cs).
        Suc pos \<le> m_start m \<and> m_start m \<le> m_end m)
      \<and> sorted_wrt in_order (case s of [] \<Rightarrow> [] | c # cs \<Rightarrow> finditer_from r (Suc pos) cs)"
  proof (cases s)
    case Nil
    then show ?thesis by simp
  next
    case (Cons c cs)
    then have "length cs < length s" by simp
    with "1.IH"
    have "(\<forall>m \<in> set (finditer_from r (Suc pos) cs). Suc pos \<le> m_start m \<and> m_start m \<le> m_end m)
        \<and> sorted_wrt in_order (finditer_from r (Suc pos) cs)"
      by blast
    then show ?thesis unfolding Cons by simp
  qed
  show ?case
  proof (cases rule: finditer_from_cases [of r s pos])
    case none
    have "\<forall>m \<in> set (case s of [] \<Rightarrow> [] | c # cs \<Rightarrow> finditer_from r (Suc pos) cs).
        pos \<le> m_start m \<and> m_start m \<le> m_end m"
      using tail [THEN conjunct1] by auto
    then show ?thesis unfolding none(2) using tail [THEN conjunct2] by simp
  next
    case (match gs s' rest)
    let ?p = "pos + (length s - length s')"
    let ?m = "\<lparr>m_start = pos, m_end = ?p, m_groups = gs\<rparr>"
    have IH: "(\<forall>m \<in> set (finditer_from r ?p s'). ?p \<le> m_start m \<and> m_start m \<le> m_end m)
        \<and> sorted_wrt in_order (finditer_from r ?p s')"
      using "1.IH" match(2) by blast
    have lt: "pos < ?p" using match(2) by simp
    have later: "\<forall>m \<in> set (finditer_from r ?p s').
        in_order ?m m \<and> pos \<le> m_start m \<and> m_start m \<le> m_end m"
      using IH [THEN conjunct1] lt by (auto simp: in_order_def)
    show ?thesis unfolding match(3) using later IH [THEN conjunct2] by simp
  next
    case (empty gs s' rest)
    let ?m = "\<lparr>m_start = pos, m_end = pos, m_groups = gs\<rparr>"
    let ?tail = "case s of [] \<Rightarrow> [] | c # cs \<Rightarrow> finditer_from r (Suc pos) cs"
    have later: "\<forall>m \<in> set ?tail. in_order ?m m \<and> pos \<le> m_start m \<and> m_start m \<le> m_end m"
      using tail [THEN conjunct1] by (auto simp: in_order_def)
    show ?thesis unfolding empty(3) using later tail [THEN conjunct2] by simp
  qed
qed

lemma finditer_from_empty_iff:
  "finditer_from r pos s = [] \<longleftrightarrow> (\<forall>s0. suffix s0 s \<longrightarrow> run r ([], s0) = [])"
proof (induction s arbitrary: pos)
  case Nil
  show ?case
  proof (cases rule: finditer_from_cases [of r "[]" pos])
    case none
    then show ?thesis by simp
  next
    case (match gs s' rest)
    then show ?thesis by simp
  next
    case (empty gs s' rest)
    then show ?thesis by auto
  qed
next
  case (Cons c cs)
  show ?case
  proof (cases rule: finditer_from_cases [of r "c # cs" pos])
    case none
    then show ?thesis using Cons.IH [of "Suc pos"] by (auto simp: suffix_Cons)
  next
    case (match gs s' rest)
    have "suffix (c # cs) (c # cs)" by simp
    then show ?thesis using match(1,3) by (metis list.distinct(1))
  next
    case (empty gs s' rest)
    have "suffix (c # cs) (c # cs)" by simp
    then show ?thesis using empty(1,3) by (metis list.distinct(1))
  qed
qed

lemma finditer_empty_iff: "finditer r text = [] \<longleftrightarrow> matches_nowhere r text"
  unfolding finditer_def matches_nowhere_def finditer_from_empty_iff
  by (simp add: list_all_iff Ball_def)

section \<open>Items\<close>

lemma is_space_space: "is_space (CHR '' '')"
  by (simp add: is_space_def in_class_def space_class_def one_def)

lemma py_float_numeral:
  assumes "numeral_text w"
  obtains v where "py_float w = Inr v" "0 \<le> v"
proof (cases "dropWhile is_digit w")
  case Nil
  have "takeWhile is_digit w \<noteq> []" using assms by (simp add: numeral_text_def)
  then have "py_float w = Inr (of_nat (digits_value (takeWhile is_digit w)))"
    unfolding py_float_def Let_def Nil by simp
  then show ?thesis using that by simp
next
  case (Cons c fp)
  from assms have "takeWhile is_digit w \<noteq> []" "c = CHR ''.'' \<and> fp \<noteq> [] \<and> list_all is_digit fp"
    unfolding numeral_text_def Cons by simp_all
  then have "py_float w =
      Inr (of_nat (digits_value (takeWhile is_digit w)) + of_nat (digits_value fp) / 10 ^ length fp)"
    unfolding py_float_def Let_def Cons by simp
  moreover have "(0::rat) \<le> of_nat (digits_value (takeWhile is_digit w))
      + of_nat (digits_value fp) / 10 ^ length fp"
    by simp
  ultimately show ?thesis using that by blast
qed

lemma tidy_only_spaces: "tidy t \<Longrightarrow> c \<in> set t \<Longrightarrow> is_space c \<Longrightarrow> c = CHR '' ''"
  by (induction t) auto

lemma tidy_no_double: "\<not> tidy (ps @ CHR '' '' # CHR '' '' # ss)"
  by (induction ps) (auto simp: is_space_space)

lemma tidy_whitespace_normalized:
  assumes "tidy t" "t = [] \<or> \<not> is_space (hd t)" "t = [] \<or> \<not> is_space (last t)"
  shows "whitespace_normalized t"
proof -
  have 1: "list_all (\<lambda>c. is_space c \<longrightarrow> c = CHR '' '') t"
    using assms(1) tidy_only_spaces by (auto simp: list_all_iff)
  have 2: "\<not> sublist ''  '' t"
  proof
    assume "sublist ''  '' t"
    then obtain ps ss where "t = ps @ ''  '' @ ss" unfolding sublist_def by blast
    then have "t = ps @ CHR '' '' # CHR '' '' # ss" by simp
    with assms(1) tidy_no_double show False by simp
  qed
  have 3: "\<not> prefix '' '' t"
  proof
    assume "prefix '' '' t"
    then obtain zs where "t = '' '' @ zs" unfolding prefix_def by blast
    then have "t \<noteq> []" "hd t = CHR '' ''" by simp_all
    with assms(2) is_space_space show False by simp
  qed
  have 4: "\<not> suffix '' '' t"
  proof
    assume "suffix '' '' t"
    then obtain zs where "t = zs @ '' ''" unfolding suffix_def by blast
    then have "t \<noteq> []" "last t = CHR '' ''" by simp_all
    with assms(3) is_space_space show False by simp
  qed
  show ?thesis unfolding whitespace_normalized_def using 1 2 3 4 by simp
qed

lemma whitespace_normalized_normalize_name: "whitespace_normalized (normalize_name raw)"
proof (rule tidy_whitespace_normalized)
  show "tidy (normalize_name raw)" by (rule tidy_normalize_name)
  show "normalize_name raw = [] \<or> \<not> is_space (hd (normalize_name raw))"
    unfolding normalize_name_def by (rule strip_no_leading)
  show "normalize_name raw = [] \<or> \<not> is_space (last (normalize_name raw))"
    unfolding normalize_name_def by (rule strip_no_trailing)
qed

lemma make_item_groups:
  assumes "item_groups (m_groups m)"
  obtains it where "make_item m = Inr it" "item_ok it"
proof -
  from assms obtain nm q r a
    where g: "m_groups m = [(''amount'', a), (''rate'', r), (''qty'', q), (''name'', nm)]"
      and n: "numeral_text q" "numeral_text r" "numeral_text a"
    unfolding item_groups_def by blast
  from n(1) obtain vq where vq: "py_float q = Inr vq" "0 \<le> vq" by (rule py_float_numeral)
  from n(2) obtain vr where vr: "py_float r = Inr vr" "0 \<le> vr" by (rule py_float_numeral)
  from n(3) obtain va where va: "py_float a = Inr va" "0 \<le> va" by (rule py_float_numeral)
  have "make_item m = Inr \<lparr>item_name = normalize_name nm, item_quantity = vq,
      item_rate = vr, item_amount = va\<rparr>"
    by (simp add: make_item_def group_def float_group_def g vq(1) vr(1) va(1))
  moreover have "item_ok \<lparr>item_name = normalize_name nm, item_quantity = vq,
      item_rate = vr, item_amount = va\<rparr>"
    by (simp add: item_ok_def vq(2) vr(2) va(2) whitespace_normalized_normalize_name)
  ultimately show ?thesis by (rule that)
qed

lemma finditer_item_groups:
  assumes "p \<in> set patterns" "m \<in> set (finditer p text)"
  shows "item_groups (m_groups m)"
proof -
  have "\<And>s0 gs s1 rest. run p ([], s0) = (gs, s1) # rest \<Longrightarrow> item_groups gs"
  proof -
    fix s0 gs s1 rest
    assume "run p ([], s0) = (gs, s1) # rest"
    then have "(gs, s1) \<in> set (run p ([], s0))" by simp
    with assms(1) show "item_groups gs" by (rule run_patterns)
  qed
  then show ?thesis using assms(2) unfolding finditer_def by (rule finditer_from_groups)
qed

lemma matches_loop_items:
  "(\<And>m. m \<in> set ms \<Longrightarrow> item_groups (m_groups m)) \<Longrightarrow>
     \<exists>its. matches_loop ms items = Inr (items @ its) \<and> map make_item ms = map Inr its
       \<and> list_all item_ok its"
proof (induction ms arbitrary: items)
  case Nil
  then show ?case by simp
next
  case (Cons m ms)
  have "item_groups (m_groups m)" using Cons.prems by simp
  then obtain it where it: "make_item m = Inr it" "item_ok it" by (rule make_item_groups)
  have "\<And>m'. m' \<in> set ms \<Longrightarrow> item_groups (m_groups m')" using Cons.prems by simp
  then obtain its where its: "matches_loop ms (items @ [it]) = Inr ((items @ [it]) @ its)"
    "map make_item ms = map Inr its" "list_all item_ok its"
    using Cons.IH [of "items @ [it]"] by blast
  have "matches_loop (m # ms) items = Inr (items @ it # its)" using it(1) its(1) by simp
  moreover have "map make_item (m # ms) = map Inr (it # its)" using it(1) its(2) by simp
  moreover have "list_all item_ok (it # its)" using it(2) its(3) by simp
  ultimately show ?case by blast
qed

lemma pattern_loop_items:
  assumes "p \<in> set patterns"
  obtains its where "matches_loop (finditer p text) items = Inr (items @ its)"
    "map make_item (finditer p text) = map Inr its" "list_all item_ok its"
proof -
  have "\<And>m. m \<in> set (finditer p text) \<Longrightarrow> item_groups (m_groups m)"
    using assms by (rule finditer_item_groups)
  then have "\<exists>its. matches_loop (finditer p text) items = Inr (items @ its)
      \<and> map make_item (finditer p text) = map Inr its \<and> list_all item_ok its"
    by (rule matches_loop_items)
  then show ?thesis using that by blast
qed

lemma extract_items:
  obtains a b c where
    "map make_item (finditer pharmacy text) = map Inr a"
    "map make_item (finditer hospital text) = map Inr b"
    "map make_item (finditer investigation text) = map Inr c"
    "extract_bill_items_regex text = Inr (a @ b @ c)"
    "list_all item_ok (a @ b @ c)"
proof -
  have ph: "pharmacy \<in> set patterns" and ho: "hospital \<in> set patterns"
    and inv: "investigation \<in> set patterns"
    by (simp_all add: patterns_def)
  from ph obtain a where a: "matches_loop (finditer pharmacy text) [] = Inr ([] @ a)"
    "map make_item (finditer pharmacy text) = map Inr a" "list_all item_ok a"
    by (rule pattern_loop_items)
  from ho obtain b where b: "matches_loop (finditer hospital text) a = Inr (a @ b)"
    "map make_item (finditer hospital text) = map Inr b" "list_all item_ok b"
    by (rule pattern_loop_items)
  from inv obtain c where c: "matches_loop (finditer investigation text) (a @ b) = Inr ((a @ b) @ c)"
    "map make_item (finditer investigation text) = map Inr c" "list_all item_ok c"
    by (rule pattern_loop_items)
  have "extract_bill_items_regex text = Inr (a @ b @ c)"
    using a(1) b(1) c(1) by (simp add: extract_bill_items_regex_def patterns_def)
  moreover have "list_all item_ok (a @ b @ c)" using a(3) b(3) c(3) by simp
  ultimately show ?thesis using a(2) b(2) c(2) that by blast
qed

section \<open>Pharmacy and hospital patterns\<close>

lemma in_class_pharmacy_hospital: "in_class pharmacy_name c \<Longrightarrow> in_class hospital_name c"
  by (auto simp: in_class_def pharmacy_name_def hospital_name_def one_def)

lemma rests_mono:
  assumes "\<And>c. in_class c1 c \<Longrightarrow> in_class c2 c"
  shows "set (drop k (rests c1 s)) \<subseteq> set (drop k (rests c2 s))"
proof (induction s arbitrary: k)
  case Nil
  show ?case by simp
next
  case (Cons c cs)
  show ?case
  proof (cases k)
    case 0
    have "set (rests c1 cs) \<subseteq> set (rests c2 cs)" using Cons [of 0] by simp
    then show ?thesis using 0 assms by auto
  next
    case (Suc j)
    then show ?thesis using Cons [of j] assms by auto
  qed
qed

lemma run_name_group_mono:
  assumes "\<And>c. in_class c1 c \<Longrightarrow> in_class c2 c"
    and "st' \<in> set (run (name_group c1) (gs, s))"
  shows "st' \<in> set (run (name_group c2) (gs, s))"
proof -
  have "set (drop 1 (rests c1 s)) \<subseteq> set (drop 1 (rests c2 s))"
    using assms(1) by (rule rests_mono)
  then show ?thesis using assms(2)
    by (auto simp: name_group_def attempts_def window_def)
qed

lemma nonempty_has_member: "xs \<noteq> [] \<Longrightarrow> \<exists>x. x \<in> set xs"
  by (cases xs) auto

lemma hospital_where_pharmacy:
  assumes "run pharmacy ([], s) \<noteq> []"
  obtains s1 where "suffix s1 s" "run hospital ([], s1) \<noteq> []"
proof -
  from assms obtain g' s' where "(g', s') \<in> set (run pharmacy ([], s))"
    using nonempty_has_member by fastforce
  from this [unfolded pharmacy_def]
  obtain g1 s1 where 1: "(g1, s1) \<in> set (run (Opt (Seq digits ws)) ([], s))"
    and 2: "(g', s') \<in> set (run (Seq (name_group pharmacy_name) triple) (g1, s1))"
    by (rule run_SeqE)
  have "no_groups (Opt (Seq digits ws))" by (simp add: no_groups_ws no_groups_digits)
  then have g1: "g1 = []" using 1 by (rule run_no_groups)
  from 1 have suf: "suffix s1 s" by (rule run_suffix)
  from 2 obtain g2 s2 where 3: "(g2, s2) \<in> set (run (name_group pharmacy_name) ([], s1))"
    and 4: "(g', s') \<in> set (run triple (g2, s2))"
    unfolding g1 by (rule run_SeqE)
  from in_class_pharmacy_hospital 3
  have "(g2, s2) \<in> set (run (name_group hospital_name) ([], s1))"
    by (rule run_name_group_mono)
  with 4 have "(g', s') \<in> set (run hospital ([], s1))"
    unfolding hospital_def run_Seq by blast
  then have "run hospital ([], s1) \<noteq> []" by auto
  with suf show ?thesis by (rule that)
qed

lemma finditer_hospital_of_pharmacy:
  assumes "finditer pharmacy text \<noteq> []"
  shows "finditer hospital text \<noteq> []"
proof
  assume "finditer hospital text = []"
  then have none: "\<And>s0. suffix s0 text \<Longrightarrow> run hospital ([], s0) = []"
    unfolding finditer_def finditer_from_empty_iff by blast
  from assms obtain s0 where s0: "suffix s0 text" "run pharmacy ([], s0) \<noteq> []"
    unfolding finditer_def finditer_from_empty_iff by blast
  from s0(2) obtain s1 where s1: "suffix s1 s0" "run hospital ([], s1) \<noteq> []"
    by (rule hospital_where_pharmacy)
  from s1(1) s0(1) have "suffix s1 text" by (rule suffix_order.trans)
  then have "run hospital ([], s1) = []" by (rule none)
  with s1(2) show False ..
qed

lemma pattern_items_empty_iff:
  assumes "p \<in> set patterns"
  shows "pattern_items p text = Inr [] \<longleftrightarrow> finditer p text = []"
proof -
  from assms obtain its where its: "matches_loop (finditer p text) [] = Inr ([] @ its)"
    "map make_item (finditer p text) = map Inr its"
    by (rule pattern_loop_items)
  from its(2) have "length (finditer p text) = length its" by (rule map_eq_imp_length_eq)
  then have "its = [] \<longleftrightarrow> finditer p text = []" by auto
  then show ?thesis using its(1) by (simp add: pattern_items_def)
qed


section \<open>The response\<close>

lemma extract_total: obtains items where "extract_bill_items_regex text = Inr items"
proof -
  obtain a b c where "extract_bill_items_regex text = Inr (a @ b @ c)"
    by (rule extract_items)
  then show ?thesis by (rule that)
qed

lemma pages_loop_result:
  "\<exists>new. pages_loop idx extracted page_items count =
       Inr (page_items @ new, count + sum_list (map (\<lambda>e. length (bill_items e)) new))
     \<and> map page_no new = map str_nat [Suc idx..<Suc idx + length extracted]
     \<and> list_all (\<lambda>e. page_type e = ''Bill Detail'') new
     \<and> map (\<lambda>e. Inr (bill_items e)) new = map (\<lambda>kt. extract_bill_items_regex (snd kt)) extracted"
proof (induction extracted arbitrary: idx page_items count)
  case Nil
  show ?case by simp
next
  case (Cons kt rest)
  obtain key t where kt: "kt = (key, t)" by (cases kt)
  obtain items where items: "extract_bill_items_regex t = Inr items" by (rule extract_total)
  let ?e = "\<lparr>page_no = str_nat (idx + 1), page_type = ''Bill Detail'', bill_items = items\<rparr>"
  from Cons.IH [of "Suc idx" "page_items @ [?e]" "count + length items"]
  obtain new where new:
    "pages_loop (Suc idx) rest (page_items @ [?e]) (count + length items) =
       Inr ((page_items @ [?e]) @ new,
            (count + length items) + sum_list (map (\<lambda>e. length (bill_items e)) new))"
    "map page_no new = map str_nat [Suc (Suc idx)..<Suc (Suc idx) + length rest]"
    "list_all (\<lambda>e. page_type e = ''Bill Detail'') new"
    "map (\<lambda>e. Inr (bill_items e)) new = map (\<lambda>kt. extract_bill_items_regex (snd kt)) rest"
    by blast
  have 1: "pages_loop idx (kt # rest) page_items count =
       Inr (page_items @ (?e # new),
            count + sum_list (map (\<lambda>e. length (bill_items e)) (?e # new)))"
    using items new(1) by (simp add: kt)
  have upt: "[Suc idx..<Suc idx + length (kt # rest)] =
       Suc idx # [Suc (Suc idx)..<Suc (Suc idx) + length rest]"
    by (subst upt_rec) simp
  have 2: "map page_no (?e # new) = map str_nat [Suc idx..<Suc idx + length (kt # rest)]"
    unfolding upt using new(2) by simp
  have 3: "list_all (\<lambda>e. page_type e = ''Bill Detail'') (?e # new)"
    using new(3) by simp
  have 4: "map (\<lambda>e. Inr (bill_items e)) (?e # new) =
       map (\<lambda>kt. extract_bill_items_regex (snd kt)) (kt # rest)"
    using new(4) items by (simp add: kt)
  from 1 2 3 4 show ?case by blast
qed

lemma structure_output_result:
  obtains pages where
    "structure_output extracted =
       Inr \<lparr>is_success = True,
            usage = \<lparr>total_tokens = 0, input_tokens = 0, output_tokens = 0\<rparr>,
            data = \<lparr>pagewise_line_items = pages,
                    total_item_count = sum_list (map (\<lambda>e. length (bill_items e)) pages)\<rparr>\<rparr>"
    "map page_no pages = map str_nat [1..<Suc (length extracted)]"
    "list_all (\<lambda>e. page_type e = ''Bill Detail'') pages"
    "map (\<lambda>e. Inr (bill_items e)) pages = map (\<lambda>kt. extract_bill_items_regex (snd kt)) extracted"
proof -
  from pages_loop_result [of 0 extracted "[]" 0]
  obtain new where new:
    "pages_loop 0 extracted [] 0 = Inr ([] @ new, 0 + sum_list (map (\<lambda>e. length (bill_items e)) new))"
    "map page_no new = map str_nat [Suc 0..<Suc 0 + length extracted]"
    "list_all (\<lambda>e. page_type e = ''Bill Detail'') new"
    "map (\<lambda>e. Inr (bill_items e)) new = map (\<lambda>kt. extract_bill_items_regex (snd kt)) extracted"
    by blast
  have "structure_output extracted =
       Inr \<lparr>is_success = True,
            usage = \<lparr>total_tokens = 0, input_tokens = 0, output_tokens = 0\<rparr>,
            data = \<lparr>pagewise_line_items = new,
                    total_item_count = sum_list (map (\<lambda>e. length (bill_items e)) new)\<rparr>\<rparr>"
    using new(1) by (simp add: structure_output_def)
  moreover have "map page_no new = map str_nat [1..<Suc (length extracted)]"
    using new(2) by simp
  ultimately show ?thesis using new(3,4) by (rule that)
qed

lemma ocr_webhook_success:
  assumes "ocr_webhook pdf_ocr image_ocr filename file_bytes = (evs, Inr resp)"
  obtains extracted where "structure_output extracted = Inr resp"
proof -
  from assms obtain evs' where b: "webhook_body pdf_ocr image_ocr filename file_bytes = (evs', Inr resp)"
    unfolding ocr_webhook_def by (auto split: prod.splits sum.splits)
  then have "\<exists>extracted. structure_output extracted = Inr resp"
    unfolding webhook_body_def Let_def
    by (auto split: sum.splits bool.splits prod.splits)
  then show ?thesis using that by blast
qed

declare str_nat.simps [simp del]

section \<open>Matches are not empty\<close>

lemma run_length_le: "(gs', s') \<in> set (run r (gs, s)) \<Longrightarrow> length s' \<le> length s"
  by (drule run_suffix) (rule suffix_length_le)

lemma run_name_group_consumes:
  assumes "(gs', s') \<in> set (run (name_group cls) (gs, s))"
  shows "length s' < length s"
proof -
  from assms obtain gs1 where "(gs1, s') \<in> set (run (Rep cls 1 None Lazy) (gs, s))"
    unfolding name_group_def run_Group by auto
  then have "gs1 = gs \<and> (\<exists>w. s = w @ s' \<and> list_all (in_class cls) w \<and> 1 \<le> length w)"
    by (rule run_Rep)
  then show ?thesis by auto
qed

lemma run_named_consumes:
  assumes "(gs', s') \<in> set (run (Seq (name_group cls) r) (gs, s))"
  shows "length s' < length s"
proof -
  from assms obtain g1 s1 where 1: "(g1, s1) \<in> set (run (name_group cls) (gs, s))"
    and 2: "(gs', s') \<in> set (run r (g1, s1))"
    by (rule run_SeqE)
  from 1 have "length s1 < length s" by (rule run_name_group_consumes)
  moreover from 2 have "length s' \<le> length s1" by (rule run_length_le)
  ultimately show ?thesis by simp
qed

text \<open>
  A match of one of the three patterns is never empty, so \<open>finditer_from\<close> never takes its
  last branch for them.
\<close>

lemma patterns_consume:
  assumes "p \<in> set patterns" "(gs', s') \<in> set (run p ([], s))"
  shows "length s' < length s"
proof -
  from assms(1) consider "p = pharmacy" | "p = hospital" | "p = investigation"
    by (auto simp: patterns_def)
  then show ?thesis
  proof cases
    case 1
    from assms(2) [unfolded 1 pharmacy_def]
    obtain g1 s1 where a: "(g1, s1) \<in> set (run (Opt (Seq digits ws)) ([], s))"
      and b: "(gs', s') \<in> set (run (Seq (name_group pharmacy_name) triple) (g1, s1))"
      by (rule run_SeqE)
    from a have "length s1 \<le> length s" by (rule run_length_le)
    moreover from b have "length s' < length s1" by (rule run_named_consumes)
    ultimately show ?thesis by simp
  next
    case 2
    from assms(2) show ?thesis unfolding 2 hospital_def by (rule run_named_consumes)
  next
    case 3
    from assms(2) show ?thesis unfolding 3 investigation_def by (rule run_named_consumes)
  qed
qed

section \<open>The upload gate and the handler\<close>

lemma rsplit1_last_dot:
  assumes "CHR ''.'' \<notin> set ext"
  shows "rsplit1 (CHR ''.'') (stem @ CHR ''.'' # ext) = [stem, ext]"
proof -
  let ?p = "\<lambda>c. c \<noteq> CHR ''.''"
  have r: "rev (stem @ CHR ''.'' # ext) = rev ext @ CHR ''.'' # rev stem" by simp
  have all: "\<forall>c \<in> set (rev ext). ?p c" using assms by auto
  have "takeWhile ?p (rev ext @ CHR ''.'' # rev stem) =
      rev ext @ takeWhile ?p (CHR ''.'' # rev stem)"
    by (rule takeWhile_append2) (use all in blast)
  then have t: "takeWhile ?p (rev ext @ CHR ''.'' # rev stem) = rev ext" by simp
  have "dropWhile ?p (rev ext @ CHR ''.'' # rev stem) = dropWhile ?p (CHR ''.'' # rev stem)"
    by (rule dropWhile_append2) (use all in blast)
  then have d: "dropWhile ?p (rev ext @ CHR ''.'' # rev stem) = CHR ''.'' # rev stem" by simp
  show ?thesis unfolding rsplit1_def r t d by simp
qed

lemma allowed_file_suffix:
  assumes "CHR ''.'' \<notin> set ext"
  shows "allowed_file (stem @ CHR ''.'' # ext) = Inr (lower ext \<in> ALLOWED_EXTENSIONS)"
  unfolding allowed_file_def extension_def rsplit1_last_dot [OF assms]
  by (simp add: index_def)

lemma allowed_file_no_dot: "CHR ''.'' \<notin> set filename \<Longrightarrow> allowed_file filename = Inr False"
  by (simp add: allowed_file_def)

lemma rejected_upload:
  "allowed_file filename = Inr False \<Longrightarrow>
     ocr_webhook pdf_ocr image_ocr filename file_bytes = ([], Inl (HTTPException 500))"
  by (simp add: ocr_webhook_def webhook_body_def)

section \<open>Claims\<close>

text \<open>
  C8: normalising a name (every run of whitespace collapsed to one space, then leading and
  trailing whitespace trimmed) is idempotent: normalising twice gives the same text as
  normalising once, for every text.
\<close>

theorem normalize_name_idempotent: "normalize_name (normalize_name s) = normalize_name s"
proof -
  have "re_sub ws '' '' (normalize_name s) = normalize_name s"
    using tidy_normalize_name by (rule re_sub_ws_tidy)
  then have "normalize_name (normalize_name s) = strip (normalize_name s)"
    by (simp add: normalize_name_def [of "normalize_name s"])
  also have "\<dots> = normalize_name s" by (simp add: normalize_name_def strip_strip)
  finally show ?thesis .
qed

text \<open>
  C4: on the line \<^verbatim>\<open>Paracetamol 500mg 2 10.50 21.00\<close> the pharmacy pattern has exactly one
  match, the whole line; the lazy name group stops before the numeric triple, and the
  loop builds exactly one item from it, with name \<^verbatim>\<open>Paracetamol 500mg\<close>, quantity 2, rate
  10.50 and amount 21.00.
\<close>

theorem pharmacy_paracetamol_line:
  "finditer pharmacy ''Paracetamol 500mg 2 10.50 21.00'' =
     [\<lparr>m_start = 0, m_end = 31,
       m_groups = [(''amount'', ''21.00''), (''rate'', ''10.50''), (''qty'', ''2''),
                   (''name'', ''Paracetamol 500mg'')]\<rparr>]
   \<and> pattern_items pharmacy ''Paracetamol 500mg 2 10.50 21.00'' =
     Inr [\<lparr>item_name = ''Paracetamol 500mg'', item_quantity = 2,
           item_rate = 1050 / 100, item_amount = 21\<rparr>]"
  by code_simp

text \<open>
  C5: on the line \<^verbatim>\<open>CBC Test 12/05/2023 1 300 300\<close> the investigation pattern has exactly
  one match, the whole line; the date is consumed by the match and is in no group, and the
  one item built has name \<^verbatim>\<open>CBC Test\<close>, quantity 1, rate 300 and amount 300.
\<close>

theorem investigation_cbc_line:
  "finditer investigation ''CBC Test 12/05/2023 1 300 300'' =
     [\<lparr>m_start = 0, m_end = 29,
       m_groups = [(''amount'', ''300''), (''rate'', ''300''), (''qty'', ''1''),
                   (''name'', ''CBC Test'')]\<rparr>]
   \<and> pattern_items investigation ''CBC Test 12/05/2023 1 300 300'' =
     Inr [\<lparr>item_name = ''CBC Test'', item_quantity = 1, item_rate = 300, item_amount = 300\<rparr>]"
  by code_simp

text \<open>
  C9: on the text \<^verbatim>\<open>CBC Test 12/05/2023 1 300 300\<close> the extractor returns exactly three
  items: the pharmacy pattern's and the hospital pattern's, both named
  \<^verbatim>\<open>CBC Test 12/05/2023\<close> (the date is taken into the name), then the investigation
  pattern's, named \<^verbatim>\<open>CBC Test\<close>; each has quantity 1, rate 300 and amount 300.
\<close>

theorem extract_cbc_line:
  "pattern_items pharmacy ''CBC Test 12/05/2023 1 300 300'' =
     Inr [\<lparr>item_name = ''CBC Test 12/05/2023'', item_quantity = 1, item_rate = 300,
           item_amount = 300\<rparr>]
   \<and> pattern_items hospital ''CBC Test 12/05/2023 1 300 300'' =
     Inr [\<lparr>item_name = ''CBC Test 12/05/2023'', item_quantity = 1, item_rate = 300,
           item_amount = 300\<rparr>]
   \<and> extract_bill_items_regex ''CBC Test 12/05/2023 1 300 300'' =
     Inr [\<lparr>item_name = ''CBC Test 12/05/2023'', item_quantity = 1, item_rate = 300,
           item_amount = 300\<rparr>,
          \<lparr>item_name = ''CBC Test 12/05/2023'', item_quantity = 1, item_rate = 300,
           item_amount = 300\<rparr>,
          \<lparr>item_name = ''CBC Test'', item_quantity = 1, item_rate = 300, item_amount = 300\<rparr>]"
  by code_simp

text \<open>
  C1: for every text the three patterns are applied independently to the whole text: the
  item loop succeeds on the matches of each pattern, and the extractor returns the items of
  the pharmacy pattern, then those of the hospital pattern, then those of the investigation
  pattern, each in the order of \<open>finditer\<close>. The matches of one pattern come from left to
  right and do not overlap (\<open>in_order\<close>). Nothing is removed across patterns: the line
  \<^verbatim>\<open>Inj. Pantop 1 52.50 52.50\<close>, matched by the pharmacy and the hospital pattern, yields
  the same item twice.
\<close>

theorem extract_concatenates_patterns:
  "(\<exists>a b c. map make_item (finditer pharmacy text) = map Inr a
      \<and> map make_item (finditer hospital text) = map Inr b
      \<and> map make_item (finditer investigation text) = map Inr c
      \<and> extract_bill_items_regex text = Inr (a @ b @ c))
   \<and> sorted_wrt in_order (finditer p text)
   \<and> extract_bill_items_regex ''Inj. Pantop 1 52.50 52.50'' =
       Inr [\<lparr>item_name = ''Inj. Pantop'', item_quantity = 1, item_rate = 105 / 2,
             item_amount = 105 / 2\<rparr>,
            \<lparr>item_name = ''Inj. Pantop'', item_quantity = 1, item_rate = 105 / 2,
             item_amount = 105 / 2\<rparr>]"
proof -
  obtain a b c where "map make_item (finditer pharmacy text) = map Inr a"
    "map make_item (finditer hospital text) = map Inr b"
    "map make_item (finditer investigation text) = map Inr c"
    "extract_bill_items_regex text = Inr (a @ b @ c)"
    by (rule extract_items)
  then have 1: "\<exists>a b c. map make_item (finditer pharmacy text) = map Inr a
      \<and> map make_item (finditer hospital text) = map Inr b
      \<and> map make_item (finditer investigation text) = map Inr c
      \<and> extract_bill_items_regex text = Inr (a @ b @ c)"
    by blast
  have 2: "sorted_wrt in_order (finditer p text)"
    using finditer_from_positions [of p 0 "text"] unfolding finditer_def by (rule conjunct2)
  have 3: "extract_bill_items_regex ''Inj. Pantop 1 52.50 52.50'' =
       Inr [\<lparr>item_name = ''Inj. Pantop'', item_quantity = 1, item_rate = 105 / 2,
             item_amount = 105 / 2\<rparr>,
            \<lparr>item_name = ''Inj. Pantop'', item_quantity = 1, item_rate = 105 / 2,
             item_amount = 105 / 2\<rparr>]"
    by code_simp
  from 1 2 3 show ?thesis by (intro conjI)
qed




text \<open>
  C7: when none of the three patterns matches at any position of the text, the extractor
  returns the empty list, and no error.
\<close>

theorem extract_no_match_is_empty:
  assumes "list_all (\<lambda>p. matches_nowhere p text) patterns"
  shows "extract_bill_items_regex text = Inr []"
proof -
  from assms have "finditer pharmacy text = []" "finditer hospital text = []"
    "finditer investigation text = []"
    by (simp_all add: patterns_def finditer_empty_iff)
  then show ?thesis by (simp add: extract_bill_items_regex_def patterns_def)
qed

text \<open>
  A text without any numeric triple.
\<close>

theorem extract_no_match_is_empty_witness:
  "list_all (\<lambda>p. matches_nowhere p ''Thank you, visit again 2024'') patterns
   \<and> extract_bill_items_regex ''Thank you, visit again 2024'' = Inr []"
proof -
  have h: "list_all (\<lambda>p. matches_nowhere p ''Thank you, visit again 2024'') patterns"
    by code_simp
  from h extract_no_match_is_empty [OF h] show ?thesis by (rule conjI)
qed

text \<open>
  C10: whenever the pharmacy pattern has a match in a text, the hospital pattern has one
  too; so whenever the item loop yields an item for the pharmacy pattern, it yields one for
  the hospital pattern.
\<close>

theorem hospital_matches_whenever_pharmacy:
  "(finditer pharmacy text \<noteq> [] \<longrightarrow> finditer hospital text \<noteq> [])
   \<and> (pattern_items pharmacy text \<noteq> Inr [] \<longrightarrow> pattern_items hospital text \<noteq> Inr [])"
proof -
  have ph: "pharmacy \<in> set patterns" and ho: "hospital \<in> set patterns"
    by (simp_all add: patterns_def)
  show ?thesis
    unfolding pattern_items_empty_iff [OF ph] pattern_items_empty_iff [OF ho]
    using finditer_hospital_of_pharmacy by blast
qed

text \<open>
  A line with a serial number, which only the pharmacy pattern skips.
\<close>

theorem hospital_matches_whenever_pharmacy_witness:
  "finditer pharmacy ''7 Syringe 5ml 2 10 20'' \<noteq> []
   \<and> finditer hospital ''7 Syringe 5ml 2 10 20'' \<noteq> []
   \<and> pattern_items pharmacy ''7 Syringe 5ml 2 10 20'' \<noteq> Inr []
   \<and> pattern_items hospital ''7 Syringe 5ml 2 10 20'' \<noteq> Inr []"
proof -
  have 1: "finditer pharmacy ''7 Syringe 5ml 2 10 20'' \<noteq> []" by code_simp
  have 2: "pattern_items pharmacy ''7 Syringe 5ml 2 10 20'' \<noteq> Inr []" by code_simp
  from 1 2 hospital_matches_whenever_pharmacy [of "''7 Syringe 5ml 2 10 20''"]
  show ?thesis by blast
qed

text \<open>
  C6: in the response of every successful request the page numbers are \<^verbatim>\<open>"1"\<close>,
  \<^verbatim>\<open>"2"\<close>, ... in order, every entry has the page type \<^verbatim>\<open>Bill Detail\<close>, and
  \<open>total_item_count\<close> is the sum of the lengths of the pages' item lists. The structuring
  loop does so for any keys of \<^verbatim>\<open>extracted\<close>, which it never reads, and gives every page
  the items the extractor returns for its text. For two pages of which the first yields two
  items and the second none, there are two entries, the second with no items, and the count
  is 2.
\<close>

theorem response_pages_and_count:
  "(ocr_webhook pdf_ocr image_ocr filename file_bytes = (evs, Inr resp) \<longrightarrow>
      map page_no (pagewise_line_items (data resp)) =
        map str_nat [1..<Suc (length (pagewise_line_items (data resp)))]
      \<and> list_all (\<lambda>e. page_type e = ''Bill Detail'') (pagewise_line_items (data resp))
      \<and> total_item_count (data resp) =
          sum_list (map (\<lambda>e. length (bill_items e)) (pagewise_line_items (data resp))))
   \<and> (\<exists>pages. structure_output extracted =
         Inr \<lparr>is_success = True,
              usage = \<lparr>total_tokens = 0, input_tokens = 0, output_tokens = 0\<rparr>,
              data = \<lparr>pagewise_line_items = pages,
                      total_item_count = sum_list (map (\<lambda>e. length (bill_items e)) pages)\<rparr>\<rparr>
       \<and> map page_no pages = map str_nat [1..<Suc (length extracted)]
       \<and> list_all (\<lambda>e. page_type e = ''Bill Detail'') pages
       \<and> map (\<lambda>e. Inr (bill_items e)) pages =
           map (\<lambda>kt. extract_bill_items_regex (snd kt)) extracted)
   \<and> (extract_bill_items_regex t1 = Inr [i1, i2] \<and> extract_bill_items_regex t2 = Inr [] \<longrightarrow>
       structure_output [(k1, t1), (k2, t2)] =
         Inr \<lparr>is_success = True,
              usage = \<lparr>total_tokens = 0, input_tokens = 0, output_tokens = 0\<rparr>,
              data = \<lparr>pagewise_line_items =
                        [\<lparr>page_no = ''1'', page_type = ''Bill Detail'', bill_items = [i1, i2]\<rparr>,
                         \<lparr>page_no = ''2'', page_type = ''Bill Detail'', bill_items = []\<rparr>],
                      total_item_count = 2\<rparr>\<rparr>)"
proof (intro conjI impI)
  obtain pages where pages:
    "structure_output extracted =
       Inr \<lparr>is_success = True,
            usage = \<lparr>total_tokens = 0, input_tokens = 0, output_tokens = 0\<rparr>,
            data = \<lparr>pagewise_line_items = pages,
                    total_item_count = sum_list (map (\<lambda>e. length (bill_items e)) pages)\<rparr>\<rparr>"
    "map page_no pages = map str_nat [1..<Suc (length extracted)]"
    "list_all (\<lambda>e. page_type e = ''Bill Detail'') pages"
    "map (\<lambda>e. Inr (bill_items e)) pages = map (\<lambda>kt. extract_bill_items_regex (snd kt)) extracted"
    by (rule structure_output_result)
  then show "\<exists>pages. structure_output extracted =
         Inr \<lparr>is_success = True,
              usage = \<lparr>total_tokens = 0, input_tokens = 0, output_tokens = 0\<rparr>,
              data = \<lparr>pagewise_line_items = pages,
                      total_item_count = sum_list (map (\<lambda>e. length (bill_items e)) pages)\<rparr>\<rparr>
       \<and> map page_no pages = map str_nat [1..<Suc (length extracted)]
       \<and> list_all (\<lambda>e. page_type e = ''Bill Detail'') pages
       \<and> map (\<lambda>e. Inr (bill_items e)) pages =
           map (\<lambda>kt. extract_bill_items_regex (snd kt)) extracted"
    by blast
next
  assume "extract_bill_items_regex t1 = Inr [i1, i2] \<and> extract_bill_items_regex t2 = Inr []"
  moreover have "str_nat 1 = ''1''" "str_nat 2 = ''2''" by code_simp+
  ultimately show "structure_output [(k1, t1), (k2, t2)] =
         Inr \<lparr>is_success = True,
              usage = \<lparr>total_tokens = 0, input_tokens = 0, output_tokens = 0\<rparr>,
              data = \<lparr>pagewise_line_items =
                        [\<lparr>page_no = ''1'', page_type = ''Bill Detail'', bill_items = [i1, i2]\<rparr>,
                         \<lparr>page_no = ''2'', page_type = ''Bill Detail'', bill_items = []\<rparr>],
                      total_item_count = 2\<rparr>\<rparr>"
    by (simp add: structure_output_def numeral_2_eq_2)
next
  assume a: "ocr_webhook pdf_ocr image_ocr filename file_bytes = (evs, Inr resp)"
  then obtain ex where ex: "structure_output ex = Inr resp" by (rule ocr_webhook_success)
  obtain pages where pages:
    "structure_output ex =
       Inr \<lparr>is_success = True,
            usage = \<lparr>total_tokens = 0, input_tokens = 0, output_tokens = 0\<rparr>,
            data = \<lparr>pagewise_line_items = pages,
                    total_item_count = sum_list (map (\<lambda>e. length (bill_items e)) pages)\<rparr>\<rparr>"
    "map page_no pages = map str_nat [1..<Suc (length ex)]"
    "list_all (\<lambda>e. page_type e = ''Bill Detail'') pages"
    by (rule structure_output_result)
  from pages(2)
  have "length (map page_no pages) = length (map str_nat [1..<Suc (length ex)])"
    by (rule arg_cong)
  then have "length pages = length ex" by (simp only: length_map length_upt diff_Suc_1)
  with pages(2) have no: "map page_no pages = map str_nat [1..<Suc (length pages)]" by simp
  from ex pages(1) have resp: "resp =
       \<lparr>is_success = True,
        usage = \<lparr>total_tokens = 0, input_tokens = 0, output_tokens = 0\<rparr>,
        data = \<lparr>pagewise_line_items = pages,
                total_item_count = sum_list (map (\<lambda>e. length (bill_items e)) pages)\<rparr>\<rparr>"
    by simp
  show "map page_no (pagewise_line_items (data resp)) =
        map str_nat [1..<Suc (length (pagewise_line_items (data resp)))]"
    unfolding resp using no by simp
  show "list_all (\<lambda>e. page_type e = ''Bill Detail'') (pagewise_line_items (data resp))"
    unfolding resp using pages(3) by simp
  show "total_item_count (data resp) =
          sum_list (map (\<lambda>e. length (bill_items e)) (pagewise_line_items (data resp)))"
    unfolding resp by simp
qed

text \<open>
  A PDF of two pages, the first with one line that the pharmacy and the hospital pattern
  match, the second with none.
\<close>

theorem response_pages_and_count_witness:
  "ocr_webhook Some (\<lambda>b. None) ''bill.pdf'' [''Syrup 1 90 90'', ''Thank you''] =
     ([Saved ''uploads/bill.pdf'', Pdf_ocr ''uploads/bill.pdf'', Removed ''uploads/bill.pdf''],
      Inr \<lparr>is_success = True,
           usage = \<lparr>total_tokens = 0, input_tokens = 0, output_tokens = 0\<rparr>,
           data = \<lparr>pagewise_line_items =
                     [\<lparr>page_no = ''1'', page_type = ''Bill Detail'',
                       bill_items =
                         [\<lparr>item_name = ''Syrup'', item_quantity = 1, item_rate = 90,
                            item_amount = 90\<rparr>,
                          \<lparr>item_name = ''Syrup'', item_quantity = 1, item_rate = 90,
                            item_amount = 90\<rparr>]\<rparr>,
                      \<lparr>page_no = ''2'', page_type = ''Bill Detail'', bill_items = []\<rparr>],
                   total_item_count = 2\<rparr>\<rparr>)
   \<and> map str_nat [1..<Suc 2] = [''1'', ''2'']"
proof -
  have e: "ocr_webhook Some (\<lambda>b. None) ''bill.pdf'' [''Syrup 1 90 90'', ''Thank you''] =
     ([Saved ''uploads/bill.pdf'', Pdf_ocr ''uploads/bill.pdf'', Removed ''uploads/bill.pdf''],
      Inr \<lparr>is_success = True,
           usage = \<lparr>total_tokens = 0, input_tokens = 0, output_tokens = 0\<rparr>,
           data = \<lparr>pagewise_line_items =
                     [\<lparr>page_no = ''1'', page_type = ''Bill Detail'',
                       bill_items =
                         [\<lparr>item_name = ''Syrup'', item_quantity = 1, item_rate = 90,
                            item_amount = 90\<rparr>,
                          \<lparr>item_name = ''Syrup'', item_quantity = 1, item_rate = 90,
                            item_amount = 90\<rparr>]\<rparr>,
                      \<lparr>page_no = ''2'', page_type = ''Bill Detail'', bill_items = []\<rparr>],
                   total_item_count = 2\<rparr>\<rparr>)"
    by code_simp
  from response_pages_and_count [THEN conjunct1, rule_format, OF e]
  have "map str_nat [1..<Suc 2] = [''1'', ''2'']" by (simp add: eval_nat_numeral)
  with e show ?thesis by (rule conjI)
qed

text \<open>
  C3 at the upload \<^verbatim>\<open>report.docx\<close>: \<open>allowed_file\<close> refuses it, and nothing is saved or
  passed to the OCR stage. The handler raises \<^verbatim>\<open>HTTPException(status_code=400)\<close> inside
  its \<^verbatim>\<open>try\<close> block, whose \<^verbatim>\<open>except Exception\<close> re-raises it with status 500: the
  response is a server error, not a client error.
\<close>

theorem unsupported_upload_is_server_error:
  "allowed_file ''report.docx'' = Inr False
   \<and> ocr_webhook pdf_ocr image_ocr ''report.docx'' file_bytes = ([], Inl (HTTPException 500))"
  by (simp add: ocr_webhook_def webhook_body_def allowed_file_def extension_def rsplit1_def
      index_def lower_def lower_char_def ALLOWED_EXTENSIONS_def)

end
